theory Spec2Isabelle
  imports Main
begin

section \<open>JavaScript strings\<close>

text \<open>
  A JavaScript string is a sequence of UTF-16 code units. The regular expressions of the
  program carry no \<open>u\<close> flag, so they work on code units, and so do \<open>length\<close>, \<open>===\<close>
  and \<open>includes\<close>. A code unit is modelled as a natural number; the theorems below hold
  for every list of numbers, in particular for those below \<open>0x10000\<close>.
\<close>

type_synonym code_unit = nat
type_synonym jsstring = "code_unit list"

text \<open>String literals of the source, written with the characters of Latin-1.\<close>

definition js :: "string \<Rightarrow> jsstring" where
  "js s = map of_char s"

subsection \<open>Built-ins of the engine\<close>

text \<open>
  \<open>String.prototype.toLowerCase\<close> and \<open>String.prototype.normalize('NFD')\<close> belong to the
  JavaScript engine. On a string whose code units are all below \<open>0x100\<close> (Basic Latin and
  Latin-1 Supplement) both work character by character, by the finite tables of the Unicode
  standard written out here. On any other string what they return is a parameter
  (\<open>host\<close>), about which nothing is assumed.
\<close>

record host =
  host_toLowerCase :: "jsstring \<Rightarrow> jsstring"
  host_normalizeNFD :: "jsstring \<Rightarrow> jsstring"

definition is_latin1 :: "jsstring \<Rightarrow> bool" where
  "is_latin1 s = list_all (\<lambda>c. c < 0x100) s"

definition lower_latin1 :: "code_unit \<Rightarrow> code_unit" where
  "lower_latin1 c =
     (if (0x41 \<le> c \<and> c \<le> 0x5A) \<or> (0xC0 \<le> c \<and> c \<le> 0xDE \<and> c \<noteq> 0xD7)
      then c + 0x20 else c)"

definition toLowerCase :: "host \<Rightarrow> jsstring \<Rightarrow> jsstring" where
  "toLowerCase h s = (if is_latin1 s then map lower_latin1 s else host_toLowerCase h s)"

text \<open>The canonical decompositions of the Latin-1 Supplement: base letter, combining mark.\<close>

definition latin1_decompositions :: "(code_unit \<times> jsstring) list" where
  "latin1_decompositions =
     [(0xC0, [0x41, 0x300]), (0xC1, [0x41, 0x301]), (0xC2, [0x41, 0x302]),
      (0xC3, [0x41, 0x303]), (0xC4, [0x41, 0x308]), (0xC5, [0x41, 0x30A]),
      (0xC7, [0x43, 0x327]),
      (0xC8, [0x45, 0x300]), (0xC9, [0x45, 0x301]), (0xCA, [0x45, 0x302]),
      (0xCB, [0x45, 0x308]),
      (0xCC, [0x49, 0x300]), (0xCD, [0x49, 0x301]), (0xCE, [0x49, 0x302]),
      (0xCF, [0x49, 0x308]),
      (0xD1, [0x4E, 0x303]),
      (0xD2, [0x4F, 0x300]), (0xD3, [0x4F, 0x301]), (0xD4, [0x4F, 0x302]),
      (0xD5, [0x4F, 0x303]), (0xD6, [0x4F, 0x308]),
      (0xD9, [0x55, 0x300]), (0xDA, [0x55, 0x301]), (0xDB, [0x55, 0x302]),
      (0xDC, [0x55, 0x308]),
      (0xDD, [0x59, 0x301]),
      (0xE0, [0x61, 0x300]), (0xE1, [0x61, 0x301]), (0xE2, [0x61, 0x302]),
      (0xE3, [0x61, 0x303]), (0xE4, [0x61, 0x308]), (0xE5, [0x61, 0x30A]),
      (0xE7, [0x63, 0x327]),
      (0xE8, [0x65, 0x300]), (0xE9, [0x65, 0x301]), (0xEA, [0x65, 0x302]),
      (0xEB, [0x65, 0x308]),
      (0xEC, [0x69, 0x300]), (0xED, [0x69, 0x301]), (0xEE, [0x69, 0x302]),
      (0xEF, [0x69, 0x308]),
      (0xF1, [0x6E, 0x303]),
      (0xF2, [0x6F, 0x300]), (0xF3, [0x6F, 0x301]), (0xF4, [0x6F, 0x302]),
      (0xF5, [0x6F, 0x303]), (0xF6, [0x6F, 0x308]),
      (0xF9, [0x75, 0x300]), (0xFA, [0x75, 0x301]), (0xFB, [0x75, 0x302]),
      (0xFC, [0x75, 0x308]),
      (0xFD, [0x79, 0x301]), (0xFF, [0x79, 0x308])]"

definition decompose_latin1 :: "code_unit \<Rightarrow> jsstring" where
  "decompose_latin1 c =
     (if c < 0xC0 then [c]
      else case map_of latin1_decompositions c of Some d \<Rightarrow> d | None \<Rightarrow> [c])"

definition normalizeNFD :: "host \<Rightarrow> jsstring \<Rightarrow> jsstring" where
  "normalizeNFD h s =
     (if is_latin1 s then concat (map decompose_latin1 s) else host_normalizeNFD h s)"

subsection \<open>Character classes of the regular expressions\<close>

text \<open>\<open>[U+0300-U+036F]\<close>, \<open>[a-z]\<close>, \<open>[0-9]\<close> and \<open>\s\<close> (which is also what \<open>trim\<close> removes).\<close>

definition is_combining_mark :: "code_unit \<Rightarrow> bool" where
  "is_combining_mark c = (0x300 \<le> c \<and> c \<le> 0x36F)"

definition is_lower_az :: "code_unit \<Rightarrow> bool" where
  "is_lower_az c = (0x61 \<le> c \<and> c \<le> 0x7A)"

definition is_digit :: "code_unit \<Rightarrow> bool" where
  "is_digit c = (0x30 \<le> c \<and> c \<le> 0x39)"

definition is_whitespace :: "code_unit \<Rightarrow> bool" where
  "is_whitespace c =
     ((0x09 \<le> c \<and> c \<le> 0x0D) \<or> c = 0x20 \<or> c = 0xA0 \<or> c = 0x1680 \<or>
      (0x2000 \<le> c \<and> c \<le> 0x200A) \<or> c = 0x2028 \<or> c = 0x2029 \<or> c = 0x202F \<or>
      c = 0x205F \<or> c = 0x3000 \<or> c = 0xFEFF)"

section \<open>Utils: normalize\<close>

text \<open>\<open>.replace(/[U+0300-U+036F]/g, '')\<close>\<close>

definition remove_accents :: "jsstring \<Rightarrow> jsstring" where
  "remove_accents s = filter (\<lambda>c. \<not> is_combining_mark c) s"

text \<open>\<open>.replace(/[^a-z0-9\s]/g, ' ')\<close>\<close>

definition remove_punctuation :: "jsstring \<Rightarrow> jsstring" where
  "remove_punctuation s =
     map (\<lambda>c. if is_lower_az c \<or> is_digit c \<or> is_whitespace c then c else 0x20) s"

text \<open>\<open>.replace(/\s+/g, ' ')\<close>: every maximal run of whitespace becomes one space.\<close>

function collapse_spaces :: "jsstring \<Rightarrow> jsstring" where
  "collapse_spaces [] = []"
| "collapse_spaces (c # cs) =
     (if is_whitespace c then 0x20 # collapse_spaces (dropWhile is_whitespace cs)
      else c # collapse_spaces cs)"
  by pat_completeness auto
termination
  by (relation "measure length") (auto simp: length_dropWhile_le less_Suc_eq_le)

text \<open>\<open>.trim()\<close>\<close>

definition trim :: "jsstring \<Rightarrow> jsstring" where
  "trim s = rev (dropWhile is_whitespace (rev (dropWhile is_whitespace s)))"

definition normalize :: "host \<Rightarrow> jsstring \<Rightarrow> jsstring" where
  "normalize h s =
     trim (collapse_spaces (remove_punctuation (remove_accents
       (normalizeNFD h (toLowerCase h s)))))"

section \<open>Utils: levenshtein\<close>

text \<open>\<open>Math.min\<close> of three numbers. The numbers are lengths of strings and sums of
  them, far below \<open>2^53\<close>, so JavaScript's doubles hold them exactly.\<close>

definition min3 :: "nat \<Rightarrow> nat \<Rightarrow> nat \<Rightarrow> nat" where
  "min3 x y z = min x (min y z)"

text \<open>\<open>dp[i][j] = v\<close> on the array of rows.\<close>

definition set_cell :: "nat list list \<Rightarrow> nat \<Rightarrow> nat \<Rightarrow> nat \<Rightarrow> nat list list" where
  "set_cell dp i j v = dp[i := (dp ! i)[j := v]]"

text \<open>The body of the inner loop, and the two nested \<open>for\<close> loops.\<close>

definition fill_cell :: "jsstring \<Rightarrow> jsstring \<Rightarrow> nat \<Rightarrow> nat \<Rightarrow> nat list list \<Rightarrow> nat list list" where
  "fill_cell a b i j dp =
     (let cost = (if a ! (i - 1) = b ! (j - 1) then 0 else 1)
      in set_cell dp i j
           (min3 (dp ! (i - 1) ! j + 1) (dp ! i ! (j - 1) + 1) (dp ! (i - 1) ! (j - 1) + cost)))"

definition fill_row :: "jsstring \<Rightarrow> jsstring \<Rightarrow> nat \<Rightarrow> nat list list \<Rightarrow> nat list list" where
  "fill_row a b i dp = fold (fill_cell a b i) [1..<length b + 1] dp"

definition fill_table :: "jsstring \<Rightarrow> jsstring \<Rightarrow> nat list list \<Rightarrow> nat list list" where
  "fill_table a b dp = fold (fill_row a b) [1..<length a + 1] dp"

definition levenshtein :: "host \<Rightarrow> jsstring \<Rightarrow> jsstring \<Rightarrow> nat" where
  "levenshtein h a0 b0 =
     (let a = normalize h a0; b = normalize h b0;
          m = length a; n = length b
      in if m = 0 then n
         else if n = 0 then m
         else
           let dp = replicate (m + 1) (replicate (n + 1) 0);
               dp = fold (\<lambda>i dp. set_cell dp i 0 i) [0..<m + 1] dp;
               dp = fold (\<lambda>j dp. set_cell dp 0 j j) [0..<n + 1] dp;
               dp = fill_table a b dp
           in dp ! m ! n)"

text \<open>
  The recurrence the table is meant to hold: cell \<open>[i][j]\<close> is the least of the deletion,
  insertion and substitution costs, the substitution being free when the characters agree.
\<close>

fun lev_cell :: "jsstring \<Rightarrow> jsstring \<Rightarrow> nat \<Rightarrow> nat \<Rightarrow> nat" where
  "lev_cell a b 0 j = j"
| "lev_cell a b (Suc i) 0 = Suc i"
| "lev_cell a b (Suc i) (Suc j) =
     min3 (lev_cell a b i (Suc j) + 1) (lev_cell a b (Suc i) j + 1)
          (lev_cell a b i j + (if a ! i = b ! j then 0 else 1))"

section \<open>Data\<close>

record CatalogEntry =
  region :: jsstring
  name :: jsstring
  address :: jsstring
  products :: jsstring
  image :: jsstring

definition samtek :: CatalogEntry where
  "samtek =
     \<lparr>region = js (''Regi'' @ [CHR 0xF3] @ ''n Metropolitana de Santiago''),
      name = js ''SAMTEK'',
      address = js ''Nueva Tajamar 481, Torre Sur, Oficina 1601. Las Condes'',
      products = js ''Notebook, Desktop PC, All-in-one PCs, Eee Pad, Eee'',
      image = js ''samtek.png''\<rparr>"

definition serviceCenters :: "CatalogEntry list" where
  "serviceCenters = [samtek]"

text \<open>The object literal \<open>REGION_ALIASES\<close>: one own property, whose name is spelled with
  the accented letter \<open>U+00F3\<close>.\<close>

definition REGION_ALIASES :: "(jsstring \<times> jsstring list) list" where
  "REGION_ALIASES =
     [(js (''regi'' @ [CHR 0xF3] @ ''n metropolitana de santiago''),
       [js ''region metropolitana de santiago'',
        js ''rm'',
        js ''metropolitana'',
        js ''santiago'',
        js ''region metropolita na de santiago'',
        js ''region metropolotana de santiago'',
        js ''region metropolitana'',
        js ''metropolitana de santiago''])]"

subsection \<open>Property lookup and array methods\<close>

text \<open>
  \<open>obj[key]\<close> on an object literal finds an own property, or one inherited from
  \<open>Object.prototype\<close>, or \<open>undefined\<close>. The inherited values are functions (and the
  prototype itself for \<open>__proto__\<close>): truthy, and without a method \<open>some\<close>.
\<close>

datatype error = TypeError

datatype 'a property = Own 'a | Inherited | Undefined

definition object_prototype_names :: "jsstring list" where
  "object_prototype_names =
     map js [''constructor'', ''__defineGetter__'', ''__defineSetter__'', ''hasOwnProperty'',
             ''__lookupGetter__'', ''__lookupSetter__'', ''isPrototypeOf'',
             ''propertyIsEnumerable'', ''toString'', ''valueOf'', ''__proto__'',
             ''toLocaleString'']"

definition get_property :: "(jsstring \<times> 'a) list \<Rightarrow> jsstring \<Rightarrow> 'a property" where
  "get_property obj k =
     (case map_of obj k of
        Some v \<Rightarrow> Own v
      | None \<Rightarrow> if k \<in> set object_prototype_names then Inherited else Undefined)"

text \<open>\<open>aliases.some(f)\<close>, where \<open>aliases\<close> is \<open>REGION_ALIASES[key] || []\<close>.\<close>

definition some :: "(jsstring \<Rightarrow> bool) \<Rightarrow> jsstring list property \<Rightarrow> error + bool" where
  "some f aliases =
     (case aliases of
        Own xs \<Rightarrow> Inr (list_ex f xs)
      | Undefined \<Rightarrow> Inr (list_ex f [])
      | Inherited \<Rightarrow> Inl TypeError)"

text \<open>\<open>s.includes(t)\<close>: \<open>t\<close> occurs in \<open>s\<close> at some index.\<close>

definition str_includes :: "jsstring \<Rightarrow> jsstring \<Rightarrow> bool" where
  "str_includes s t = list_ex (\<lambda>k. take (length t) (drop k s) = t) [0..<length s + 1]"

text \<open>\<open>array.find(p)\<close> with a predicate that may throw.\<close>

fun find_first :: "('a \<Rightarrow> error + bool) \<Rightarrow> 'a list \<Rightarrow> error + 'a option" where
  "find_first p [] = Inr None"
| "find_first p (x # xs) =
     (case p x of
        Inl e \<Rightarrow> Inl e
      | Inr found \<Rightarrow> if found then Inr (Some x) else find_first p xs)"

section \<open>The matcher\<close>

text \<open>The catalog and the alias table are module constants of the source; the functions
  take them as arguments here, and the program's own functions fix them below.\<close>

definition isAliasMatch_on ::
  "(jsstring \<times> jsstring list) list \<Rightarrow> host \<Rightarrow> jsstring \<Rightarrow> jsstring \<Rightarrow> error + bool" where
  "isAliasMatch_on table h input regionName =
     (let key = normalize h regionName;
          inputN = normalize h input;
          aliases = get_property table key
      in if inputN = key then Inr True
         else case some (\<lambda>a. normalize h a = inputN) aliases of
           Inl e \<Rightarrow> Inl e
         | Inr alias_exact \<Rightarrow>
             if alias_exact then Inr True
             else if 6 \<le> length inputN \<and> (str_includes key inputN \<or> str_includes inputN key)
               then Inr True
             else if levenshtein h inputN key \<le> 2 then Inr True
             else case some (\<lambda>a. levenshtein h inputN a \<le> 2) aliases of
               Inl e \<Rightarrow> Inl e
             | Inr alias_fuzzy \<Rightarrow> if alias_fuzzy then Inr True else Inr False)"

definition findByRegionFlexible_on ::
  "CatalogEntry list \<Rightarrow> (jsstring \<times> jsstring list) list \<Rightarrow> host \<Rightarrow> jsstring
     \<Rightarrow> error + CatalogEntry option" where
  "findByRegionFlexible_on catalog table h input =
     (case find (\<lambda>sc. normalize h (region sc) = normalize h input) catalog of
        Some match \<Rightarrow> Inr (Some match)
      | None \<Rightarrow> find_first (\<lambda>sc. isAliasMatch_on table h input (region sc)) catalog)"

definition isAliasMatch :: "host \<Rightarrow> jsstring \<Rightarrow> jsstring \<Rightarrow> error + bool" where
  "isAliasMatch = isAliasMatch_on REGION_ALIASES"

definition findByRegionFlexible :: "host \<Rightarrow> jsstring \<Rightarrow> error + CatalogEntry option" where
  "findByRegionFlexible = findByRegionFlexible_on serviceCenters REGION_ALIASES"

text \<open>A host for closed examples: outside Latin-1 it returns its argument.\<close>

definition plain_host :: host where
  "plain_host = \<lparr>host_toLowerCase = (\<lambda>s. s), host_normalizeNFD = (\<lambda>s. s)\<rparr>"

text \<open>The request of the fifth end-to-end scenario; its eighth letter is \<open>U+00ED\<close>.\<close>

definition Valparaiso :: jsstring where
  "Valparaiso = js (''Valpara'' @ [CHR 0xED] @ ''so'')"

text \<open>A catalog of two entries, to exercise the catalog order: the first region is one
  letter away from the second.\<close>

definition two_centers :: "CatalogEntry list" where
  "two_centers =
     [samtek\<lparr>region := js ''Region Metropolitana de Santiagos'', name := js ''OTHER''\<rparr>,
      samtek]"

subsection \<open>The strategies in the words of the specification\<close>

text \<open>\<open>aliasesFor\<close>: the registered aliases of a canonical key, none if there are none.\<close>

definition aliases_for :: "(jsstring \<times> jsstring list) list \<Rightarrow> jsstring \<Rightarrow> jsstring list" where
  "aliases_for table key = (case get_property table key of Own xs \<Rightarrow> xs | _ \<Rightarrow> [])"

text \<open>An entry qualifies when one of the strategies (a) to (e) holds: equal keys, an alias
  with the input's key, containment in either direction from six characters on, distance
  at most 2 to the key, distance at most 2 to an alias.\<close>

definition satisfies_strategy ::
  "(jsstring \<times> jsstring list) list \<Rightarrow> host \<Rightarrow> jsstring \<Rightarrow> jsstring \<Rightarrow> bool" where
  "satisfies_strategy table h input regionName =
     (let key = normalize h regionName;
          inputN = normalize h input;
          aliases = aliases_for table key
      in inputN = key \<or>
         list_ex (\<lambda>a. normalize h a = inputN) aliases \<or>
         (6 \<le> length inputN \<and> (str_includes inputN key \<or> str_includes key inputN)) \<or>
         levenshtein h inputN key \<le> 2 \<or>
         list_ex (\<lambda>a. levenshtein h inputN a \<le> 2) aliases)"

subsection \<open>The matcher with the two alias checks deleted\<close>

definition isAliasMatch_without_aliases :: "host \<Rightarrow> jsstring \<Rightarrow> jsstring \<Rightarrow> error + bool" where
  "isAliasMatch_without_aliases h input regionName =
     (let key = normalize h regionName;
          inputN = normalize h input
      in if inputN = key then Inr True
         else if 6 \<le> length inputN \<and> (str_includes key inputN \<or> str_includes inputN key)
           then Inr True
         else if levenshtein h inputN key \<le> 2 then Inr True
         else Inr False)"

definition findByRegionFlexible_without_aliases ::
  "host \<Rightarrow> jsstring \<Rightarrow> error + CatalogEntry option" where
  "findByRegionFlexible_without_aliases h input =
     (case find (\<lambda>sc. normalize h (region sc) = normalize h input) serviceCenters of
        Some match \<Rightarrow> Inr (Some match)
      | None \<Rightarrow>
          find_first (\<lambda>sc. isAliasMatch_without_aliases h input (region sc)) serviceCenters)"

subsection \<open>The alias table as its comment describes it\<close>

text \<open>The comment above \<open>REGION_ALIASES\<close> calls its keys normalized. This is the table with
  the key spelled as \<open>normalize\<close> returns it, the aliases unchanged.\<close>

definition REGION_ALIASES_normalized :: "(jsstring \<times> jsstring list) list" where
  "REGION_ALIASES_normalized =
     map (\<lambda>(k, as). (js ''region metropolitana de santiago'', as)) REGION_ALIASES"

section \<open>The earlier server, src/index.js\<close>

text \<open>Its \<open>normalize\<close> has three steps before \<open>trim\<close> and keeps punctuation; its route
  compares canonical keys for equality only.\<close>

definition normalize_index :: "host \<Rightarrow> jsstring \<Rightarrow> jsstring" where
  "normalize_index h s = trim (remove_accents (normalizeNFD h (toLowerCase h s)))"

text \<open>
  What an engine's NFD does on the strings of one example, by the canonical ordering of the
  Unicode standard: \<open>U+0483\<close> has combining class 230 and \<open>U+0591\<close> class 220, so
  NFD puts \<open>U+0591\<close> first when the two are adjacent; \<open>U+034F\<close> has class 0 and keeps
  them in place while it stands between them. None of these characters has a lowercase
  form or a decomposition. On every other string this host returns its argument.
\<close>

definition reordering_host :: host where
  "reordering_host =
     \<lparr>host_toLowerCase = (\<lambda>s. s),
      host_normalizeNFD = (\<lambda>s. if s = [0x61, 0x483, 0x591] then [0x61, 0x591, 0x483] else s)\<rparr>"


section \<open>Predicates of the statements and invariants of the loops\<close>

text \<open>The shape of a canonical key: lowercase letters, digits and single spaces, none at
  either end.\<close>

definition is_key_char :: "code_unit \<Rightarrow> bool" where
  "is_key_char c = (is_lower_az c \<or> is_digit c \<or> c = 0x20)"

fun no_adjacent_whitespace :: "jsstring \<Rightarrow> bool" where
  "no_adjacent_whitespace (c # d # cs) =
     (\<not> (is_whitespace c \<and> is_whitespace d) \<and> no_adjacent_whitespace (d # cs))"
| "no_adjacent_whitespace _ = True"

fun trimmed :: "jsstring \<Rightarrow> bool" where
  "trimmed [] = True"
| "trimmed (c # cs) = (\<not> is_whitespace c \<and> \<not> is_whitespace (last (c # cs)))"

definition canonical :: "jsstring \<Rightarrow> bool" where
  "canonical t = (list_all is_key_char t \<and> no_adjacent_whitespace t \<and> trimmed t)"

text \<open>
  The words of a string are its maximal runs of lowercase ASCII letters and digits; every
  other character separates words. \<open>join_words\<close> puts one space between consecutive
  words and none at the ends.
\<close>

definition is_alnum :: "code_unit \<Rightarrow> bool" where
  "is_alnum c = (is_lower_az c \<or> is_digit c)"

function key_words :: "jsstring \<Rightarrow> jsstring list" where
  "key_words [] = []"
| "key_words (c # cs) =
     (if is_alnum c then takeWhile is_alnum (c # cs) # key_words (dropWhile is_alnum cs)
      else key_words cs)"
  by pat_completeness auto
termination
  by (relation "measure length") (auto simp: length_dropWhile_le less_Suc_eq_le)

fun join_words :: "jsstring list \<Rightarrow> jsstring" where
  "join_words [] = []"
| "join_words [w] = w"
| "join_words (w # v # ws) = w @ 0x20 # join_words (v # ws)"

text \<open>Auxiliary predicates of the proofs.\<close>

fun starts_alnum :: "jsstring \<Rightarrow> bool" where
  "starts_alnum [] = False"
| "starts_alnum (c # cs) = is_alnum c"

definition right_trimmed :: "jsstring \<Rightarrow> bool" where
  "right_trimmed x =
     (list_all is_key_char x \<and> no_adjacent_whitespace x \<and> (x = [] \<or> \<not> is_whitespace (last x)))"

text \<open>The table of \<open>levenshtein\<close>: its dimensions, and what it holds while row \<open>i\<close> is
  being filled up to column \<open>k\<close>, and after rows \<open>0..k\<close> are filled.\<close>

definition table_dims :: "nat \<Rightarrow> nat \<Rightarrow> nat list list \<Rightarrow> bool" where
  "table_dims m n dp = (length dp = m + 1 \<and> (\<forall>i \<le> m. length (dp ! i) = n + 1))"

definition row_inv :: "jsstring \<Rightarrow> jsstring \<Rightarrow> nat \<Rightarrow> nat \<Rightarrow> nat list list \<Rightarrow> bool" where
  "row_inv a b i k dp =
     (table_dims (length a) (length b) dp \<and>
      (\<forall>i' < i. \<forall>j \<le> length b. dp ! i' ! j = lev_cell a b i' j) \<and>
      (\<forall>j \<le> k. dp ! i ! j = lev_cell a b i j) \<and>
      (\<forall>i' \<le> length a. dp ! i' ! 0 = i'))"

definition table_inv :: "jsstring \<Rightarrow> jsstring \<Rightarrow> nat \<Rightarrow> nat list list \<Rightarrow> bool" where
  "table_inv a b k dp =
     (table_dims (length a) (length b) dp \<and>
      (\<forall>i \<le> k. \<forall>j \<le> length b. dp ! i ! j = lev_cell a b i j) \<and>
      (\<forall>i \<le> length a. dp ! i ! 0 = i))"

section \<open>normalize: the result is a canonical key\<close>

lemma trimmed_iff:
  "trimmed t = (t = [] \<or> (\<not> is_whitespace (hd t) \<and> \<not> is_whitespace (last t)))"
  by (cases t) simp_all

lemma key_char_whitespace: "is_key_char c \<Longrightarrow> is_whitespace c = (c = 0x20)"
  by (auto simp: is_key_char_def is_whitespace_def is_lower_az_def is_digit_def)

lemma key_char_facts:
  assumes "is_key_char c"
  shows "c < 0x100" "lower_latin1 c = c" "decompose_latin1 c = [c]" "\<not> is_combining_mark c"
    "is_lower_az c \<or> is_digit c \<or> is_whitespace c"
  using assms
  by (auto simp: is_key_char_def is_whitespace_def is_lower_az_def is_digit_def
      lower_latin1_def decompose_latin1_def is_combining_mark_def)

lemma no_adjacent_Cons:
  "no_adjacent_whitespace (c # s) =
     ((s = [] \<or> \<not> (is_whitespace c \<and> is_whitespace (hd s))) \<and> no_adjacent_whitespace s)"
  by (cases s) auto

lemma collapse_Nil_iff [simp]: "collapse_spaces s = [] \<longleftrightarrow> s = []"
  by (cases s) simp_all

lemma hd_collapse: "s \<noteq> [] \<Longrightarrow> is_whitespace (hd (collapse_spaces s)) = is_whitespace (hd s)"
  by (cases s) (simp_all add: is_whitespace_def)

lemma no_adjacent_collapse: "no_adjacent_whitespace (collapse_spaces s)"
proof (induction s rule: collapse_spaces.induct)
  case 1
  then show ?case by simp
next
  case (2 c cs)
  show ?case
  proof (cases "is_whitespace c")
    case True
    let ?r = "dropWhile is_whitespace cs"
    have "?r = [] \<or> \<not> is_whitespace (hd (collapse_spaces ?r))"
      by (metis hd_dropWhile hd_collapse)
    moreover have "no_adjacent_whitespace (collapse_spaces ?r)"
      using True 2 by simp
    ultimately show ?thesis using True by (simp add: no_adjacent_Cons)
  next
    case False
    then show ?thesis using 2 by (simp add: no_adjacent_Cons)
  qed
qed

lemma key_chars_collapse:
  "list_all (\<lambda>c. is_lower_az c \<or> is_digit c \<or> is_whitespace c) s \<Longrightarrow>
   list_all is_key_char (collapse_spaces s)"
proof (induction s rule: collapse_spaces.induct)
  case 1
  then show ?case by simp
next
  case (2 c cs)
  have "list_all (\<lambda>c. is_lower_az c \<or> is_digit c \<or> is_whitespace c) (dropWhile is_whitespace cs)"
    using "2.prems" by (auto simp: list_all_iff dest: set_dropWhileD)
  then show ?case using 2 by (auto simp: is_key_char_def)
qed

lemma remove_punctuation_classes:
  "list_all (\<lambda>c. is_lower_az c \<or> is_digit c \<or> is_whitespace c) (remove_punctuation s)"
proof -
  have "is_whitespace 0x20" by (simp add: is_whitespace_def)
  then show ?thesis
    unfolding remove_punctuation_def list_all_iff by auto
qed

lemma trim_eq_take_drop:
  "\<exists>k. trim s = take k (dropWhile is_whitespace s)"
  by (metis trim_def dropWhile_eq_drop rev_drop rev_rev_ident)

lemma no_adjacent_tl: "no_adjacent_whitespace (c # s) \<Longrightarrow> no_adjacent_whitespace s"
  by (simp add: no_adjacent_Cons)

lemma no_adjacent_dropWhile: "no_adjacent_whitespace s \<Longrightarrow> no_adjacent_whitespace (dropWhile P s)"
  by (induction s) (auto dest: no_adjacent_tl)

lemma no_adjacent_take: "no_adjacent_whitespace s \<Longrightarrow> no_adjacent_whitespace (take k s)"
proof (induction s arbitrary: k)
  case Nil
  then show ?case by simp
next
  case (Cons c s)
  show ?case
  proof (cases k)
    case 0
    then show ?thesis by simp
  next
    case (Suc k')
    have "no_adjacent_whitespace (take k' s)" using Cons by (simp add: no_adjacent_Cons)
    moreover have "take k' s \<noteq> [] \<Longrightarrow> hd (take k' s) = hd s" by (cases s; cases k') auto
    moreover have "take k' s \<noteq> [] \<Longrightarrow> s \<noteq> []" by auto
    ultimately show ?thesis using Cons.prems Suc by (auto simp: no_adjacent_Cons)
  qed
qed

lemma no_adjacent_trim: "no_adjacent_whitespace s \<Longrightarrow> no_adjacent_whitespace (trim s)"
proof -
  assume s: "no_adjacent_whitespace s"
  obtain k where "trim s = take k (dropWhile is_whitespace s)"
    using trim_eq_take_drop by blast
  then show ?thesis
    using no_adjacent_take [OF no_adjacent_dropWhile [OF s]] by simp
qed

lemma key_chars_trim: "list_all is_key_char s \<Longrightarrow> list_all is_key_char (trim s)"
  using trim_eq_take_drop [of s]
  by (auto simp: list_all_iff dest!: in_set_takeD set_dropWhileD)

lemma trimmed_trim: "trimmed (trim s)"
proof (cases "trim s = []")
  case True
  then show ?thesis by (simp add: trimmed_iff)
next
  case False
  let ?d = "dropWhile is_whitespace s"
  let ?e = "dropWhile is_whitespace (rev ?d)"
  have e: "?e \<noteq> []" using False by (simp add: trim_def)
  have d: "?d \<noteq> []"
  proof
    assume "?d = []"
    then have "?e = []" by (simp only: rev.simps dropWhile.simps)
    with e show False ..
  qed
  have "last (trim s) = hd ?e" using e by (simp add: trim_def last_rev)
  then have l: "\<not> is_whitespace (last (trim s))" using hd_dropWhile [OF e] by simp
  obtain k where k: "trim s = take k ?d" using trim_eq_take_drop by blast
  then have "k \<noteq> 0" using False by auto
  then have "hd (trim s) = hd ?d" using k d by (cases ?d; cases k) auto
  then have "\<not> is_whitespace (hd (trim s))" using hd_dropWhile [OF d] by simp
  then show ?thesis using l by (simp add: trimmed_iff)
qed

lemma canonical_normalize: "canonical (normalize h s)"
  unfolding canonical_def normalize_def
  by (intro conjI key_chars_trim no_adjacent_trim trimmed_trim key_chars_collapse
      no_adjacent_collapse remove_punctuation_classes)

lemma collapse_fixed:
  "list_all is_key_char t \<Longrightarrow> no_adjacent_whitespace t \<Longrightarrow> collapse_spaces t = t"
proof (induction t rule: collapse_spaces.induct)
  case 1
  then show ?case by simp
next
  case (2 c cs)
  have tl: "list_all is_key_char cs" "no_adjacent_whitespace cs"
    using "2.prems" by (simp_all add: no_adjacent_Cons)
  show ?case
  proof (cases "is_whitespace c")
    case True
    then have c: "c = 0x20" using "2.prems" by (simp add: key_char_whitespace)
    have "cs = [] \<or> \<not> is_whitespace (hd cs)"
      using "2.prems"(2) True by (simp add: no_adjacent_Cons)
    then have "dropWhile is_whitespace cs = cs" by (cases cs) auto
    then show ?thesis using True c 2 tl by simp
  next
    case False
    then show ?thesis using 2 tl by simp
  qed
qed

lemma trim_fixed: "trimmed t \<Longrightarrow> trim t = t"
proof (cases "t = []")
  case True
  then show ?thesis by (simp add: trim_def)
next
  case False
  assume "trimmed t"
  then have h: "\<not> is_whitespace (hd t)" "\<not> is_whitespace (last t)"
    using False by (simp_all add: trimmed_iff)
  have "dropWhile is_whitespace t = t" using h(1) False by (cases t) auto
  moreover have "dropWhile is_whitespace (rev t) = rev t"
    using h(2) False by (cases "rev t") (auto simp: last_rev hd_rev [symmetric])
  ultimately show ?thesis by (simp add: trim_def)
qed

lemma canonical_fixed:
  assumes "canonical t"
  shows "normalize h t = t"
proof -
  from assms have k: "list_all is_key_char t" and a: "no_adjacent_whitespace t" and tr: "trimmed t"
    by (simp_all add: canonical_def)
  have l: "is_latin1 t"
    using k key_char_facts(1) by (auto simp: is_latin1_def list_all_iff)
  have "map lower_latin1 t = t"
    using k by (intro map_idI) (simp add: list_all_iff key_char_facts(2))
  then have 1: "toLowerCase h t = t" using l by (simp add: toLowerCase_def)
  have "map decompose_latin1 t = map (\<lambda>c. [c]) t"
    using k by (intro map_cong) (simp_all add: list_all_iff key_char_facts(3))
  then have "concat (map decompose_latin1 t) = concat (map (\<lambda>c. [c]) t)"
    by (simp only:)
  then have 2: "normalizeNFD h t = t" using l by (simp add: normalizeNFD_def)
  have 3: "remove_accents t = t"
    using k by (auto simp: remove_accents_def list_all_iff key_char_facts(4) intro: filter_True)
  have 4: "remove_punctuation t = t"
    unfolding remove_punctuation_def
    using k by (intro map_idI) (auto simp: list_all_iff dest: key_char_facts(5))
  show ?thesis
    by (simp add: normalize_def 1 2 3 4 collapse_fixed [OF k a] trim_fixed [OF tr])
qed

section \<open>levenshtein: the table holds the recurrence\<close>

lemma length_set_cell [simp]: "length (set_cell dp i j v) = length dp"
  by (simp add: set_cell_def)

lemma length_row_set_cell [simp]: "length (set_cell dp i j v ! i') = length (dp ! i')"
  by (cases "i' = i"; cases "i < length dp"; simp add: set_cell_def list_update_beyond)

lemma nth_set_cell:
  "i < length dp \<Longrightarrow> j < length (dp ! i) \<Longrightarrow>
   set_cell dp i j v ! i' ! j' = (if i' = i \<and> j' = j then v else dp ! i' ! j')"
  by (cases "i' = i"; cases "j' = j"; simp add: set_cell_def)

lemma table_dims_set_cell: "table_dims m n dp \<Longrightarrow> table_dims m n (set_cell dp i j v)"
  by (simp add: table_dims_def)

lemma row_inv_step:
  assumes inv: "row_inv a b i k dp" and i: "0 < i" "i \<le> length a" and k: "k < length b"
  shows "row_inv a b i (Suc k) (fill_cell a b i (Suc k) dp)"
proof -
  obtain i0 where i0: "i = Suc i0" using i by (cases i) auto
  from inv have dims: "table_dims (length a) (length b) dp" by (simp add: row_inv_def)
  have r1: "i < length dp" using dims i by (simp add: table_dims_def)
  have r2: "Suc k < length (dp ! i)" using dims i k by (simp add: table_dims_def)
  have up: "dp ! i0 ! Suc k = lev_cell a b i0 (Suc k)" "dp ! i0 ! k = lev_cell a b i0 k"
    using inv i0 k by (simp_all add: row_inv_def)
  have left: "dp ! i ! k = lev_cell a b i k" using inv by (simp add: row_inv_def)
  have new: "fill_cell a b i (Suc k) dp ! i ! Suc k = lev_cell a b i (Suc k)"
    using up left r1 r2 unfolding i0 by (simp add: fill_cell_def nth_set_cell)
  have old: "\<And>i' j'. \<not> (i' = i \<and> j' = Suc k) \<Longrightarrow> fill_cell a b i (Suc k) dp ! i' ! j' = dp ! i' ! j'"
    by (auto simp: fill_cell_def nth_set_cell [OF r1 r2])
  have d: "table_dims (length a) (length b) (fill_cell a b i (Suc k) dp)"
    using dims by (simp add: fill_cell_def table_dims_set_cell)
  show ?thesis
    unfolding row_inv_def
  proof (intro conjI allI impI)
    show "table_dims (length a) (length b) (fill_cell a b i (Suc k) dp)" by (rule d)
  next
    fix i' j assume "i' < i" "j \<le> length b"
    then show "fill_cell a b i (Suc k) dp ! i' ! j = lev_cell a b i' j"
      using inv by (simp add: old row_inv_def)
  next
    fix j assume "j \<le> Suc k"
    then show "fill_cell a b i (Suc k) dp ! i ! j = lev_cell a b i j"
      using inv new by (cases "j = Suc k") (simp_all add: old row_inv_def)
  next
    fix i' assume "i' \<le> length a"
    then show "fill_cell a b i (Suc k) dp ! i' ! 0 = i'"
      using inv by (simp add: old row_inv_def)
  qed
qed

lemma row_inv_fold:
  assumes "row_inv a b i 0 dp" "0 < i" "i \<le> length a" "k \<le> length b"
  shows "row_inv a b i k (fold (fill_cell a b i) [1..<k + 1] dp)"
  using assms(4)
proof (induction k)
  case 0
  then show ?case using assms(1) by simp
next
  case (Suc k)
  then have "row_inv a b i k (fold (fill_cell a b i) [1..<k + 1] dp)" by simp
  then have "row_inv a b i (Suc k) (fill_cell a b i (Suc k) (fold (fill_cell a b i) [1..<k + 1] dp))"
    using Suc.prems assms(2,3) by (intro row_inv_step) simp_all
  then show ?case by simp
qed

lemma lev_cell_0 [simp]: "lev_cell a b i 0 = i"
  by (cases i) simp_all

lemma table_inv_row_inv: "table_inv a b k dp \<Longrightarrow> Suc k \<le> length a \<Longrightarrow> row_inv a b (Suc k) 0 dp"
  by (simp add: table_inv_def row_inv_def less_Suc_eq_le)

lemma row_inv_table_inv: "row_inv a b (Suc k) (length b) dp \<Longrightarrow> table_inv a b (Suc k) dp"
  by (auto simp: table_inv_def row_inv_def le_Suc_eq)

lemma table_inv_fold:
  assumes "table_inv a b 0 dp" "k \<le> length a"
  shows "table_inv a b k (fold (fill_row a b) [1..<k + 1] dp)"
  using assms(2)
proof (induction k)
  case 0
  then show ?case using assms(1) by simp
next
  case (Suc k)
  let ?dp = "fold (fill_row a b) [1..<k + 1] dp"
  have "table_inv a b k ?dp" using Suc by simp
  then have "row_inv a b (Suc k) 0 ?dp" using Suc.prems by (rule table_inv_row_inv)
  then have "row_inv a b (Suc k) (length b) (fill_row a b (Suc k) ?dp)"
    unfolding fill_row_def using Suc.prems by (intro row_inv_fold) simp_all
  then have "table_inv a b (Suc k) (fill_row a b (Suc k) ?dp)" by (rule row_inv_table_inv)
  then show ?case by simp
qed

lemma first_column_fold:
  assumes "table_dims m n dp" "k \<le> m + 1"
  shows "table_dims m n (fold (\<lambda>i dp. set_cell dp i 0 i) [0..<k] dp) \<and>
         (\<forall>i < k. fold (\<lambda>i dp. set_cell dp i 0 i) [0..<k] dp ! i ! 0 = i)"
  using assms(2)
proof (induction k)
  case 0
  then show ?case using assms(1) by simp
next
  case (Suc k)
  let ?dp = "fold (\<lambda>i dp. set_cell dp i 0 i) [0..<k] dp"
  have ih: "table_dims m n ?dp" "\<forall>i < k. ?dp ! i ! 0 = i" using Suc by simp_all
  have r: "k < length ?dp" "0 < length (?dp ! k)"
    using ih(1) Suc.prems by (simp_all add: table_dims_def)
  show ?case
    using ih by (auto simp: table_dims_set_cell nth_set_cell [OF r] less_Suc_eq)
qed

lemma first_row_fold:
  assumes "table_dims m n dp" "k \<le> n + 1" "\<forall>i \<le> m. dp ! i ! 0 = i"
  shows "table_dims m n (fold (\<lambda>j dp. set_cell dp 0 j j) [0..<k] dp) \<and>
         (\<forall>j < k. fold (\<lambda>j dp. set_cell dp 0 j j) [0..<k] dp ! 0 ! j = j) \<and>
         (\<forall>i \<le> m. fold (\<lambda>j dp. set_cell dp 0 j j) [0..<k] dp ! i ! 0 = i)"
  using assms(2)
proof (induction k)
  case 0
  then show ?case using assms(1,3) by simp
next
  case (Suc k)
  let ?dp = "fold (\<lambda>j dp. set_cell dp 0 j j) [0..<k] dp"
  have ih: "table_dims m n ?dp" "\<forall>j < k. ?dp ! 0 ! j = j" "\<forall>i \<le> m. ?dp ! i ! 0 = i"
    using Suc by simp_all
  have r: "0 < length ?dp" "k < length (?dp ! 0)"
    using ih(1) Suc.prems by (simp_all add: table_dims_def)
  show ?case
    using ih by (auto simp: table_dims_set_cell nth_set_cell [OF r] less_Suc_eq)
qed

lemma table_dims_replicate: "table_dims m n (replicate (m + 1) (replicate (n + 1) 0))"
  by (simp add: table_dims_def less_Suc_eq_le [symmetric] del: replicate_Suc)

lemma levenshtein_lev_cell:
  "levenshtein h a0 b0 =
     lev_cell (normalize h a0) (normalize h b0) (length (normalize h a0)) (length (normalize h b0))"
proof -
  define a where "a = normalize h a0"
  define b where "b = normalize h b0"
  define dp0 :: "nat list list" where "dp0 = replicate (length a + 1) (replicate (length b + 1) 0)"
  define dp1 where "dp1 = fold (\<lambda>i dp. set_cell dp i 0 i) [0..<length a + 1] dp0"
  define dp2 where "dp2 = fold (\<lambda>j dp. set_cell dp 0 j j) [0..<length b + 1] dp1"
  have d0: "table_dims (length a) (length b) dp0"
    unfolding dp0_def by (rule table_dims_replicate)
  have d1: "table_dims (length a) (length b) dp1" "\<forall>i \<le> length a. dp1 ! i ! 0 = i"
    using first_column_fold [OF d0, of "length a + 1"] by (simp_all add: dp1_def less_Suc_eq_le)
  have d2: "table_dims (length a) (length b) dp2" "\<forall>j \<le> length b. dp2 ! 0 ! j = j"
      "\<forall>i \<le> length a. dp2 ! i ! 0 = i"
    using first_row_fold [OF d1(1) _ d1(2), of "length b + 1"]
    by (simp_all add: dp2_def less_Suc_eq_le)
  have "table_inv a b 0 dp2"
    using d2 by (simp add: table_inv_def)
  then have "table_inv a b (length a) (fill_table a b dp2)"
    unfolding fill_table_def by (intro table_inv_fold) simp_all
  then have "fill_table a b dp2 ! length a ! length b = lev_cell a b (length a) (length b)"
    by (simp add: table_inv_def)
  moreover have "levenshtein h a0 b0 =
      (if length a = 0 then length b
       else if length b = 0 then length a
       else fill_table a b dp2 ! length a ! length b)"
    unfolding levenshtein_def Let_def a_def b_def dp2_def dp1_def dp0_def by (rule refl)
  ultimately have "levenshtein h a0 b0 = lev_cell a b (length a) (length b)"
    by simp
  then show ?thesis by (simp add: a_def b_def)
qed

lemma min3_commute: "min3 x y z = min3 y x z"
  by (simp add: min3_def min.left_commute)

lemma lev_cell_sym: "lev_cell a b i j = lev_cell b a j i"
proof (induction a b i j rule: lev_cell.induct)
  case (1 a b j)
  then show ?case by simp
next
  case (2 a b i)
  then show ?case by simp
next
  case (3 a b i j)
  then show ?case by (simp add: min3_commute eq_commute [of "a ! i"])
qed

lemma lev_cell_lower: "i - j \<le> lev_cell a b i j \<and> j - i \<le> lev_cell a b i j"
  by (induction a b i j rule: lev_cell.induct) (auto simp: min3_def)

lemma normalize_Nil [simp]: "normalize h [] = []"
  by (simp add: normalize_def toLowerCase_def normalizeNFD_def is_latin1_def
      remove_accents_def remove_punctuation_def trim_def)

section \<open>The matcher on the catalog of the program\<close>

lemmas string_eval =
  js_def normalize_def toLowerCase_def normalizeNFD_def is_latin1_def lower_latin1_def
  decompose_latin1_def latin1_decompositions_def remove_accents_def remove_punctuation_def
  trim_def is_combining_mark_def is_lower_az_def is_digit_def is_whitespace_def

lemma samtek_key: "normalize h (region samtek) = js ''region metropolitana de santiago''"
  by (simp add: samtek_def string_eval)

lemma samtek_aliases:
  "get_property REGION_ALIASES (js ''region metropolitana de santiago'') = Undefined"
  by (simp add: get_property_def REGION_ALIASES_def object_prototype_names_def js_def)

lemma isAliasMatch_on_strategies:
  "get_property table (normalize h regionName) \<noteq> Inherited \<Longrightarrow>
   isAliasMatch_on table h input regionName = Inr (satisfies_strategy table h input regionName)"
  by (cases "get_property table (normalize h regionName)")
     (auto simp: isAliasMatch_on_def satisfies_strategy_def aliases_for_def some_def Let_def)

lemma levenshtein_ge_diff:
  "length (normalize h b) - length (normalize h a) \<le> levenshtein h a b"
  by (simp add: levenshtein_lev_cell lev_cell_lower)

lemma find_first_index:
  "i < length xs \<Longrightarrow> p (xs ! i) = Inr True \<Longrightarrow> (\<forall>j < i. p (xs ! j) = Inr False) \<Longrightarrow>
   find_first p xs = Inr (Some (xs ! i))"
proof (induction xs arbitrary: i)
  case Nil
  then show ?case by simp
next
  case (Cons x xs)
  show ?case
  proof (cases i)
    case 0
    then show ?thesis using Cons.prems by simp
  next
    case (Suc k)
    have "p x = Inr False" using Cons.prems(3) Suc by auto
    moreover have "find_first p xs = Inr (Some (xs ! k))"
      using Cons.prems Suc by (intro Cons.IH) auto
    ultimately show ?thesis using Suc by simp
  qed
qed

lemma find_first_none:
  "(\<forall>j < length xs. p (xs ! j) = Inr False) \<Longrightarrow> find_first p xs = Inr None"
proof (induction xs)
  case Nil
  then show ?case by simp
next
  case (Cons x xs)
  have "p x = Inr False" using Cons.prems by auto
  moreover have "find_first p xs = Inr None" using Cons.prems by (intro Cons.IH) auto
  ultimately show ?case by simp
qed

lemma find_index:
  "i < length xs \<Longrightarrow> P (xs ! i) \<Longrightarrow> (\<forall>j < i. \<not> P (xs ! j)) \<Longrightarrow> find P xs = Some (xs ! i)"
  by (auto simp: find_Some_iff)

lemma find_none: "(\<forall>j < length xs. \<not> P (xs ! j)) \<Longrightarrow> find P xs = None"
  by (auto simp: find_None_iff in_set_conv_nth)

lemma findByRegionFlexible_samtek:
  "findByRegionFlexible h input =
     Inr (if satisfies_strategy REGION_ALIASES h input (region samtek) then Some samtek else None)"
proof -
  have k: "get_property REGION_ALIASES (normalize h (region samtek)) \<noteq> Inherited"
    by (simp add: samtek_key samtek_aliases)
  have a: "isAliasMatch_on REGION_ALIASES h input (region samtek) =
      Inr (satisfies_strategy REGION_ALIASES h input (region samtek))"
    by (rule isAliasMatch_on_strategies [OF k])
  have e: "normalize h (region samtek) = normalize h input \<Longrightarrow>
      satisfies_strategy REGION_ALIASES h input (region samtek)"
    by (simp add: satisfies_strategy_def Let_def)
  show ?thesis
    using e by (auto simp: findByRegionFlexible_def findByRegionFlexible_on_def serviceCenters_def a)
qed

lemma strategy_samtek:
  "satisfies_strategy REGION_ALIASES h input (region samtek) =
     (let key = js ''region metropolitana de santiago''; inputN = normalize h input
      in inputN = key \<or>
         (6 \<le> length inputN \<and> (str_includes inputN key \<or> str_includes key inputN)) \<or>
         levenshtein h inputN key \<le> 2)"
  by (simp add: satisfies_strategy_def aliases_for_def samtek_key samtek_aliases Let_def)

lemma key_length: "length (js ''region metropolitana de santiago'') = 32"
  by (simp add: js_def)

lemma key_canonical: "normalize h (js ''region metropolitana de santiago'') = js ''region metropolitana de santiago''"
  by (simp add: string_eval)

lemma far_from_key:
  "length (normalize h input) < 30 \<Longrightarrow>
   \<not> levenshtein h (normalize h input) (js ''region metropolitana de santiago'') \<le> 2"
proof -
  have "32 - length (normalize h input)
      \<le> levenshtein h (normalize h input) (js ''region metropolitana de santiago'')"
    using levenshtein_ge_diff [where h = h and a = "normalize h input"
        and b = "js ''region metropolitana de santiago''"]
    by (simp only: key_canonical key_length canonical_fixed [OF canonical_normalize])
  then show "length (normalize h input) < 30 \<Longrightarrow> ?thesis" by arith
qed

lemma filter_dropWhile_neg:
  "(\<And>c. P c \<Longrightarrow> \<not> Q c) \<Longrightarrow> filter P (dropWhile Q s) = filter P s"
  by (induction s) auto

lemma filter_trim:
  assumes "\<And>c. P c \<Longrightarrow> \<not> is_whitespace c"
  shows "filter P (trim s) = filter P s"
proof -
  have "filter P (trim s) = rev (filter P (dropWhile is_whitespace (rev (dropWhile is_whitespace s))))"
    by (simp add: trim_def rev_filter)
  also have "\<dots> = rev (filter P (rev (dropWhile is_whitespace s)))"
    using assms by (simp add: filter_dropWhile_neg)
  also have "\<dots> = filter P (dropWhile is_whitespace s)"
    by (simp add: rev_filter)
  also have "\<dots> = filter P s"
    using assms by (simp add: filter_dropWhile_neg)
  finally show ?thesis .
qed

lemma filter_collapse:
  "filter (\<lambda>c. \<not> is_whitespace c) (collapse_spaces s) = filter (\<lambda>c. \<not> is_whitespace c) s"
proof (induction s rule: collapse_spaces.induct)
  case 1
  then show ?case by simp
next
  case (2 c cs)
  have sp: "is_whitespace 0x20" by (simp add: is_whitespace_def)
  show ?case
  proof (cases "is_whitespace c")
    case True
    then show ?thesis using 2 sp by (simp add: filter_dropWhile_neg)
  next
    case False
    then show ?thesis using 2 by simp
  qed
qed

lemma alnum_not_whitespace: "is_lower_az c \<or> is_digit c \<Longrightarrow> \<not> is_whitespace c"
  by (auto simp: is_lower_az_def is_digit_def is_whitespace_def)

lemma filter_remove_punctuation:
  "filter (\<lambda>c. \<not> is_whitespace c) (remove_punctuation s) =
   filter (\<lambda>c. is_lower_az c \<or> is_digit c) s"
proof (induction s)
  case Nil
  then show ?case by (simp add: remove_punctuation_def)
next
  case (Cons c s)
  have sp: "is_whitespace 0x20" by (simp add: is_whitespace_def)
  from Cons show ?case
    using alnum_not_whitespace [of c] sp by (auto simp: remove_punctuation_def)
qed

lemma letters_and_digits_kept:
  "filter (\<lambda>c. \<not> is_whitespace c) (normalize h s) =
   filter (\<lambda>c. is_lower_az c \<or> is_digit c) (remove_accents (normalizeNFD h (toLowerCase h s)))"
  by (simp add: normalize_def filter_trim filter_collapse filter_remove_punctuation)

lemma without_aliases_samtek:
  "isAliasMatch_without_aliases h input (region samtek) =
     Inr (satisfies_strategy REGION_ALIASES h input (region samtek))"
  by (auto simp: isAliasMatch_without_aliases_def strategy_samtek samtek_key Let_def)

lemma index_normalize_keeps_punctuation:
  "normalize_index h (js ''Santiago, Chile!'') = js ''santiago, chile!''"
  by (simp add: normalize_index_def string_eval)

lemma rm_found_with_normalized_key:
  "findByRegionFlexible_on serviceCenters REGION_ALIASES_normalized h (js ''rm'') = Inr (Some samtek)"
proof -
  have n: "normalize h (js ''rm'') = js ''rm''" by (simp add: string_eval)
  have k: "js ''rm'' \<noteq> js ''region metropolitana de santiago''" by (simp add: js_def)
  have a: "get_property REGION_ALIASES_normalized (js ''region metropolitana de santiago'') =
      Own (snd (hd REGION_ALIASES))"
    by (simp add: REGION_ALIASES_normalized_def REGION_ALIASES_def get_property_def)
  have "list_ex (\<lambda>a. normalize h a = js ''rm'') (snd (hd REGION_ALIASES))"
    by (simp add: REGION_ALIASES_def n) 
  then have "isAliasMatch_on REGION_ALIASES_normalized h (js ''rm'') (region samtek) = Inr True"
    using k by (simp add: isAliasMatch_on_def samtek_key n a some_def Let_def)
  then show ?thesis
    using k by (simp add: findByRegionFlexible_on_def serviceCenters_def samtek_key n)
qed

lemma samtek_key_plain: "get_property REGION_ALIASES (normalize h (region samtek)) \<noteq> Inherited"
  by (simp add: samtek_key samtek_aliases)

lemma find_first_strategies:
  assumes "i < length catalog"
    and "\<forall>j \<le> i. get_property table (normalize h (region (catalog ! j))) \<noteq> Inherited"
    and "satisfies_strategy table h input (region (catalog ! i))"
    and "\<forall>j < i. \<not> satisfies_strategy table h input (region (catalog ! j))"
  shows "find_first (\<lambda>sc. isAliasMatch_on table h input (region sc)) catalog =
         Inr (Some (catalog ! i))"
proof (rule find_first_index [OF assms(1)])
  show "isAliasMatch_on table h input (region (catalog ! i)) = Inr True"
    using assms(2,3) by (simp add: isAliasMatch_on_strategies)
  show "\<forall>j < i. isAliasMatch_on table h input (region (catalog ! j)) = Inr False"
    using assms(2,4) by (simp add: isAliasMatch_on_strategies)
qed

lemma first_entry_also_qualifies:
  "satisfies_strategy REGION_ALIASES plain_host (region samtek) (region (two_centers ! 0))"
proof -
  have r: "normalize plain_host (js ''Region Metropolitana de Santiagos'') =
      js ''region metropolitana de santiagos''"
    by (simp add: string_eval)
  have "str_includes (js ''region metropolitana de santiagos'') (js ''region metropolitana de santiago'')"
    by (simp add: str_includes_def js_def upt_rec)
  moreover have "6 \<le> length (js ''region metropolitana de santiago'')" by (simp add: js_def)
  ultimately show ?thesis
    by (simp add: satisfies_strategy_def Let_def two_centers_def samtek_key r)
qed

section \<open>normalize: words joined by single spaces\<close>

lemma alnum_whitespace: "is_alnum c \<Longrightarrow> \<not> is_whitespace c"
  by (auto simp: is_alnum_def is_lower_az_def is_digit_def is_whitespace_def)

lemma space_not_alnum: "\<not> is_alnum 0x20"
  by (simp add: is_alnum_def is_lower_az_def is_digit_def)

lemma key_char_cases: "is_key_char c \<Longrightarrow> is_alnum c \<or> c = 0x20"
  by (auto simp: is_key_char_def is_alnum_def)

lemma key_words_Cons:
  "key_words (c # cs) =
     (if is_alnum c
      then (if starts_alnum cs then (c # hd (key_words cs)) # tl (key_words cs)
            else [c] # key_words cs)
      else key_words cs)"
proof (cases cs)
  case Nil
  then show ?thesis by simp
next
  case (Cons d ds)
  then show ?thesis by simp
qed

lemma key_words_dropWhile:
  "(\<And>c. Q c \<Longrightarrow> \<not> is_alnum c) \<Longrightarrow> key_words (dropWhile Q x) = key_words x"
  by (induction x) auto

lemma key_words_no_alnum: "list_all (\<lambda>c. \<not> is_alnum c) q \<Longrightarrow> key_words q = []"
  by (induction q) auto

lemma starts_alnum_append:
  "list_all (\<lambda>c. \<not> is_alnum c) q \<Longrightarrow> starts_alnum (p @ q) = starts_alnum p"
  by (cases p; cases q) auto

lemma key_words_append_no_alnum:
  "list_all (\<lambda>c. \<not> is_alnum c) q \<Longrightarrow> key_words (p @ q) = key_words p"
proof (induction p)
  case Nil
  then show ?case by (simp add: key_words_no_alnum)
next
  case (Cons c p)
  have "key_words (c # (p @ q)) = key_words (c # p)"
    unfolding key_words_Cons [of c "p @ q"] key_words_Cons [of c p]
    using Cons by (simp add: starts_alnum_append)
  then show ?case by simp
qed

lemma key_words_trim: "key_words (trim x) = key_words x"
proof -
  let ?d = "dropWhile is_whitespace x"
  have "?d = rev (dropWhile is_whitespace (rev ?d)) @ rev (takeWhile is_whitespace (rev ?d))"
    by (metis rev_append rev_rev_ident takeWhile_dropWhile_id)
  moreover have "list_all (\<lambda>c. \<not> is_alnum c) (rev (takeWhile is_whitespace (rev ?d)))"
    by (auto simp: list_all_iff dest: set_takeWhileD alnum_whitespace)
  ultimately have "key_words ?d = key_words (rev (dropWhile is_whitespace (rev ?d)))"
    by (metis key_words_append_no_alnum)
  moreover have "key_words ?d = key_words x"
    by (rule key_words_dropWhile) (auto dest: alnum_whitespace)
  ultimately show ?thesis by (simp add: trim_def)
qed

lemma starts_alnum_collapse: "starts_alnum (collapse_spaces x) = starts_alnum x"
  by (cases x) (auto simp: space_not_alnum dest: alnum_whitespace)

lemma key_words_collapse: "key_words (collapse_spaces x) = key_words x"
proof (induction x rule: collapse_spaces.induct)
  case 1
  then show ?case by simp
next
  case (2 c cs)
  show ?case
  proof (cases "is_whitespace c")
    case True
    then have na: "\<not> is_alnum c" using alnum_whitespace by blast
    have "key_words (dropWhile is_whitespace cs) = key_words cs"
      by (rule key_words_dropWhile) (auto dest: alnum_whitespace)
    then show ?thesis using True na 2 by (simp add: space_not_alnum)
  next
    case False
    then have "key_words (c # collapse_spaces cs) = key_words (c # cs)"
      unfolding key_words_Cons [of c "collapse_spaces cs"] key_words_Cons [of c cs]
      using 2 by (simp add: starts_alnum_collapse)
    then show ?thesis using False by simp
  qed
qed

lemma punctuation_char:
  "is_alnum (if is_lower_az c \<or> is_digit c \<or> is_whitespace c then c else 0x20) = is_alnum c"
  "is_alnum c \<Longrightarrow> (if is_lower_az c \<or> is_digit c \<or> is_whitespace c then c else 0x20) = c"
  using space_not_alnum by (auto simp: is_alnum_def)

lemma starts_alnum_remove_punctuation:
  "starts_alnum (remove_punctuation x) = starts_alnum x"
  by (cases x) (simp_all add: remove_punctuation_def punctuation_char(1))

lemma remove_punctuation_Cons:
  "remove_punctuation (c # cs) =
     (if is_lower_az c \<or> is_digit c \<or> is_whitespace c then c else 0x20) # remove_punctuation cs"
  by (simp add: remove_punctuation_def)

lemma key_words_remove_punctuation: "key_words (remove_punctuation x) = key_words x"
proof (induction x)
  case Nil
  then show ?case by (simp add: remove_punctuation_def)
next
  case (Cons c cs)
  let ?c = "if is_lower_az c \<or> is_digit c \<or> is_whitespace c then c else 0x20"
  have "key_words (?c # remove_punctuation cs) = key_words (c # cs)"
    unfolding key_words_Cons [of ?c "remove_punctuation cs"] key_words_Cons [of c cs]
    using Cons punctuation_char [of c]
    by (simp add: starts_alnum_remove_punctuation)
  then show ?case by (simp only: remove_punctuation_Cons)
qed

lemma key_words_normalize:
  "key_words (normalize h s) = key_words (remove_accents (normalizeNFD h (toLowerCase h s)))"
  by (simp add: normalize_def key_words_trim key_words_collapse key_words_remove_punctuation)

lemma join_words_Cons_Cons:
  "join_words ((c # w) # ws) = c # join_words (w # ws)"
  by (cases ws) simp_all

lemma join_words_Cons: "ws \<noteq> [] \<Longrightarrow> join_words (w # ws) = w @ 0x20 # join_words ws"
  by (cases ws) simp_all

lemma right_trimmed_tl: "right_trimmed (c # cs) \<Longrightarrow> right_trimmed cs"
  by (auto simp: right_trimmed_def no_adjacent_Cons)

lemma join_key_words:
  "right_trimmed x \<Longrightarrow> join_words (key_words x) = dropWhile is_whitespace x"
proof (induction x)
  case Nil
  then show ?case by simp
next
  case (Cons c cs)
  have ih: "join_words (key_words cs) = dropWhile is_whitespace cs"
    using Cons right_trimmed_tl by blast
  have kc: "is_key_char c" using Cons.prems by (simp add: right_trimmed_def)
  show ?case
  proof (cases "is_alnum c")
    case False
    then have "c = 0x20" using kc key_char_cases by blast
    then have "is_whitespace c" by (simp add: is_whitespace_def)
    then show ?thesis using False ih by simp
  next
    case True
    then have nw: "\<not> is_whitespace c" by (rule alnum_whitespace)
    show ?thesis
    proof (cases cs)
      case Nil
      then show ?thesis using True nw by simp
    next
      case (Cons d ds)
      have kd: "is_key_char d" using Cons.prems Cons by (simp add: right_trimmed_def)
      show ?thesis
      proof (cases "is_alnum d")
        case dT: True
        then have "dropWhile is_whitespace cs = cs" using Cons alnum_whitespace by simp
        then have j: "join_words (key_words cs) = cs" using ih by simp
        then have "key_words cs \<noteq> []" using Cons by auto
        then have "join_words ((c # hd (key_words cs)) # tl (key_words cs)) = c # cs"
          using j by (simp add: join_words_Cons_Cons)
        then show ?thesis
          unfolding key_words_Cons [of c cs] using True dT Cons nw by simp
      next
        case dF: False
        then have d: "d = 0x20" using kd key_char_cases by blast
        then have wd: "is_whitespace d" by (simp add: is_whitespace_def)
        have "ds \<noteq> []" "\<not> is_whitespace (hd ds)"
          using Cons.prems Cons wd by (auto simp: right_trimmed_def no_adjacent_Cons)
        then have "dropWhile is_whitespace cs = ds" using Cons wd by (cases ds) auto
        then have j: "join_words (key_words cs) = ds" using ih by simp
        then have "key_words cs \<noteq> []" using \<open>ds \<noteq> []\<close> by auto
        then have "join_words ([c] # key_words cs) = c # d # ds"
          using j d by (simp add: join_words_Cons)
        then show ?thesis
          unfolding key_words_Cons [of c cs] using True dF Cons nw by simp
      qed
    qed
  qed
qed

lemma canonical_join: "canonical x \<Longrightarrow> join_words (key_words x) = x"
proof -
  assume c: "canonical x"
  then have "right_trimmed x" by (auto simp: canonical_def right_trimmed_def trimmed_iff)
  then have "join_words (key_words x) = dropWhile is_whitespace x" by (rule join_key_words)
  moreover have "dropWhile is_whitespace x = x"
    using c by (cases x) (auto simp: canonical_def)
  ultimately show ?thesis by simp
qed

lemma normalize_words:
  "normalize h s = join_words (key_words (remove_accents (normalizeNFD h (toLowerCase h s))))"
  using canonical_join [OF canonical_normalize, of h s] by (simp add: key_words_normalize)

section \<open>The normalize of src/index.js\<close>






lemma six_step_on_example:
  "normalize reordering_host [0x61, 0x483, 0x34F, 0x591] = [0x61]"
  by (simp add: normalize_def reordering_host_def toLowerCase_def normalizeNFD_def
      is_latin1_def remove_accents_def remove_punctuation_def is_combining_mark_def trim_def
      is_whitespace_def is_lower_az_def is_digit_def)

section \<open>Claims\<close>




text \<open>
  C7. \<open>levenshtein\<close> normalizes both arguments: against the empty string it returns
  the length of the other argument's canonical key, and on any two strings it returns what
  it returns on their canonical keys.
\<close>

theorem levenshtein_base_cases:
  "levenshtein h a [] = length (normalize h a) \<and>
   levenshtein h [] b = length (normalize h b) \<and>
   levenshtein h a b = levenshtein h (normalize h a) (normalize h b)"
proof -
  have "levenshtein h a b = levenshtein h (normalize h a) (normalize h b)"
    by (simp add: levenshtein_lev_cell canonical_fixed [OF canonical_normalize])
  then show ?thesis by (simp add: levenshtein_def Let_def)
qed

text \<open>
  C8. \<open>levenshtein\<close> is symmetric: the table computed for \<open>(a, b)\<close> ends in the same
  number as the one computed for \<open>(b, a)\<close>.
\<close>

theorem levenshtein_symmetric: "levenshtein h a b = levenshtein h b a"
  by (simp add: levenshtein_lev_cell lev_cell_sym)

text \<open>
  C3. The \<open>normalize\<close> of the matcher replaces every character that is not a lowercase
  ASCII letter, a digit or whitespace with a space, collapses the runs of whitespace and
  trims: its result is the words of the string left after the accents are removed (the
  maximal runs of letters and digits), joined by single spaces. So the result holds only
  letters, digits and the space, no two spaces are adjacent and none stands at either end,
  and \<open>normalize("Santiago, Chile!")\<close> is \<open>"santiago chile"\<close>. The \<open>normalize\<close> of
  src/index.js keeps punctuation: there the same call returns \<open>"santiago, chile!"\<close>.
\<close>

theorem normalize_strips_punctuation:
  "normalize h s =
     join_words (key_words (remove_accents (normalizeNFD h (toLowerCase h s)))) \<and>
   list_all (\<lambda>c. is_lower_az c \<or> is_digit c \<or> c = 0x20) (normalize h s) \<and>
   no_adjacent_whitespace (normalize h s) \<and>
   trimmed (normalize h s) \<and>
   filter (\<lambda>c. c \<noteq> 0x20) (normalize h s) =
     filter (\<lambda>c. is_lower_az c \<or> is_digit c)
       (remove_accents (normalizeNFD h (toLowerCase h s))) \<and>
   normalize h (js ''Santiago, Chile!'') = js ''santiago chile'' \<and>
   normalize_index h (js ''Santiago, Chile!'') = js ''santiago, chile!''"
proof -
  have c: "canonical (normalize h s)" by (rule canonical_normalize)
  then have k: "list_all is_key_char (normalize h s)" by (simp add: canonical_def)
  have 1: "normalize h s =
      join_words (key_words (remove_accents (normalizeNFD h (toLowerCase h s))))"
    by (rule normalize_words)
  have 2: "list_all (\<lambda>c. is_lower_az c \<or> is_digit c \<or> c = 0x20) (normalize h s)"
    using k by (simp add: list_all_iff is_key_char_def)
  have 3: "no_adjacent_whitespace (normalize h s)" and 4: "trimmed (normalize h s)"
    using c by (simp_all add: canonical_def)
  have "filter (\<lambda>c. c \<noteq> 0x20) (normalize h s) = filter (\<lambda>c. \<not> is_whitespace c) (normalize h s)"
    using k by (intro filter_cong) (auto simp: list_all_iff key_char_whitespace)
  then have 5: "filter (\<lambda>c. c \<noteq> 0x20) (normalize h s) =
      filter (\<lambda>c. is_lower_az c \<or> is_digit c)
        (remove_accents (normalizeNFD h (toLowerCase h s)))"
    by (simp only: letters_and_digits_kept)
  have 6: "normalize h (js ''Santiago, Chile!'') = js ''santiago chile''"
    by (simp add: string_eval)
  have 7: "normalize_index h (js ''Santiago, Chile!'') = js ''santiago, chile!''"
    by (rule index_normalize_keeps_punctuation)
  from 1 2 3 4 5 6 7 show ?thesis by (intro conjI)
qed

theorem normalize_strips_punctuation_witness:
  "normalize plain_host (js ''Santiago, Chile!'') = js ''santiago chile'' \<and>
   key_words (js ''a-b'') = [js ''a'', js ''b''] \<and>
   normalize plain_host (js ''a-b'') = js ''a b'' \<and>
   normalize plain_host (js ''  x,,y '') = js ''x y'' \<and>
   filter (\<lambda>c. c \<noteq> 0x20) (normalize plain_host (js ''a-b  C_9 '')) = js ''abc9''"
proof -
  have w: "key_words (js ''a-b'') = [js ''a'', js ''b'']"
    by (simp add: js_def is_alnum_def is_lower_az_def is_digit_def)
  have t: "remove_accents (normalizeNFD plain_host (toLowerCase plain_host (js ''a-b''))) = js ''a-b''"
    by (simp add: string_eval)
  have a: "normalize plain_host (js ''a-b'') = js ''a b''"
    using normalize_strips_punctuation [of plain_host "js ''a-b''"]
    by (simp only: t w) (simp add: js_def)
  have b: "normalize plain_host (js ''Santiago, Chile!'') = js ''santiago chile''"
    and c: "normalize plain_host (js ''  x,,y '') = js ''x y''"
    and d: "filter (\<lambda>c. c \<noteq> 0x20) (normalize plain_host (js ''a-b  C_9 '')) = js ''abc9''"
    by (simp_all add: string_eval)
  show ?thesis by (simp only: a b c d w simp_thms)
qed

text \<open>The \<open>normalize\<close> of src/index.js does not return \<open>"santiago chile"\<close>.\<close>

theorem index_normalize_counterexample:
  "normalize_index plain_host (js ''Santiago, Chile!'') \<noteq> js ''santiago chile''"
  by (simp add: normalize_index_def string_eval)

text \<open>
  C1. The claim is that \<open>resolve("rm")\<close> returns the SAMTEK entry through its alias. The
  program returns \<open>null\<close>: the only key of \<open>REGION_ALIASES\<close> keeps its accent, the lookup
  key has none, so no alias is retrieved; \<open>"rm"\<close> is shorter than six characters and
  thirty edits away from the key. With the key spelled as \<open>normalize\<close> returns it the
  entry is found (\<open>rm_found_with_normalized_key\<close>).
\<close>

theorem resolve_rm_not_found: "findByRegionFlexible h (js ''rm'') = Inr None"
proof -
  have n: "normalize h (js ''rm'') = js ''rm''" by (simp add: string_eval)
  have "js ''rm'' \<noteq> js ''region metropolitana de santiago''" "length (js ''rm'') = 2"
    by (simp_all add: js_def)
  then have "\<not> satisfies_strategy REGION_ALIASES h (js ''rm'') (region samtek)"
    using far_from_key [of h "js ''rm''"] by (simp add: strategy_samtek n)
  then show ?thesis by (simp add: findByRegionFlexible_samtek)
qed

text \<open>
  C2. For every input the matcher returns what it returns with the two alias checks
  deleted. The alias list retrieved for the catalog's entry is empty: the table has no
  property under the canonical key, its only key being the lower-cased region name with
  the accent kept.
\<close>

theorem alias_checks_never_match:
  "findByRegionFlexible h input = findByRegionFlexible_without_aliases h input \<and>
   map (\<lambda>sc. aliases_for REGION_ALIASES (normalize h (region sc))) serviceCenters = [[]] \<and>
   map (\<lambda>sc. map_of REGION_ALIASES (normalize h (region sc))) serviceCenters = [None] \<and>
   map fst REGION_ALIASES = map (\<lambda>sc. toLowerCase h (region sc)) serviceCenters"
proof -
  have e: "normalize h (region samtek) = normalize h input \<Longrightarrow>
      satisfies_strategy REGION_ALIASES h input (region samtek)"
    by (simp add: satisfies_strategy_def Let_def)
  have "findByRegionFlexible_without_aliases h input =
      Inr (if satisfies_strategy REGION_ALIASES h input (region samtek) then Some samtek else None)"
    using e by (auto simp: findByRegionFlexible_without_aliases_def serviceCenters_def
        without_aliases_samtek)
  then have 1: "findByRegionFlexible h input = findByRegionFlexible_without_aliases h input"
    by (simp add: findByRegionFlexible_samtek)
  have 2: "aliases_for REGION_ALIASES (normalize h (region samtek)) = []"
    by (simp add: aliases_for_def samtek_key samtek_aliases)
  have 3: "map_of REGION_ALIASES (normalize h (region samtek)) = None"
    by (simp add: samtek_key REGION_ALIASES_def js_def)
  have 4: "map fst REGION_ALIASES = [toLowerCase h (region samtek)]"
    by (simp add: REGION_ALIASES_def samtek_def js_def toLowerCase_def is_latin1_def
        lower_latin1_def)
  show ?thesis by (simp add: 1 2 3 4 serviceCenters_def)
qed

text \<open>
  C9. \<open>resolve("Valparaiso")\<close>, written with \<open>U+00ED\<close>, returns \<open>null\<close>, no strategy
  holding for it; for every input the result is \<open>null\<close> exactly when no entry of the
  catalog satisfies a strategy, and it is never a thrown error.
\<close>

theorem not_found_is_a_value:
  "findByRegionFlexible h Valparaiso = Inr None \<and>
   \<not> satisfies_strategy REGION_ALIASES h Valparaiso (region samtek) \<and>
   (findByRegionFlexible h input = Inr None) =
     (\<not> list_ex (\<lambda>sc. satisfies_strategy REGION_ALIASES h input (region sc)) serviceCenters) \<and>
   findByRegionFlexible h input \<noteq> Inl e"
proof -
  have n: "normalize h Valparaiso = js ''valparaiso''"
    by (simp add: Valparaiso_def string_eval)
  have "\<not> str_includes (js ''valparaiso'') (js ''region metropolitana de santiago'')"
    "\<not> str_includes (js ''region metropolitana de santiago'') (js ''valparaiso'')"
    by (simp_all add: str_includes_def js_def upt_rec)
  moreover have "js ''valparaiso'' \<noteq> js ''region metropolitana de santiago''"
    "length (js ''valparaiso'') < 30"
    by (simp_all add: js_def)
  ultimately have v: "\<not> satisfies_strategy REGION_ALIASES h Valparaiso (region samtek)"
    using far_from_key [of h Valparaiso] by (simp add: strategy_samtek n)
  show ?thesis
    using v by (simp add: findByRegionFlexible_samtek serviceCenters_def)
qed

text \<open>
  C10. \<open>findByRegionFlexible\<close> returns for every string, the empty one included: on
  \<open>""\<close> it returns \<open>null\<close>, and on every string either \<open>null\<close> or an entry of the
  catalog, never an error.
\<close>

theorem resolve_total:
  "findByRegionFlexible h [] = Inr None \<and>
   (\<exists>r. findByRegionFlexible h input = Inr r \<and> (r = None \<or> r \<in> Some ` set serviceCenters))"
proof -
  have "\<not> satisfies_strategy REGION_ALIASES h [] (region samtek)"
    using far_from_key [of h "[]"] by (simp add: strategy_samtek js_def)
  then show ?thesis
    by (simp add: findByRegionFlexible_samtek serviceCenters_def)
qed

text \<open>
  C4. The strategies are tried in a fixed order. In any catalog, an entry whose canonical
  key equals the input's and that is the first such entry is the one returned, whatever
  the other strategies say of the entries before it. When no key equals the input's, the
  first entry that satisfies one of the strategies (a) to (e) is returned (no key before
  it being the name of an inherited property, for which \<open>aliases.some\<close> throws). For the
  catalog of the program the result is the first entry satisfying any strategy.
  In \<open>two_centers\<close> the first entry satisfies a strategy for the input
  (\<open>first_entry_also_qualifies\<close>) and the second, the exact match, is returned.
\<close>

theorem resolve_priority_order:
  assumes "i < length catalog"
  shows "(normalize h (region (catalog ! i)) = normalize h input \<and>
          (\<forall>j < i. normalize h (region (catalog ! j)) \<noteq> normalize h input) \<longrightarrow>
          findByRegionFlexible_on catalog table h input = Inr (Some (catalog ! i))) \<and>
         ((\<forall>j < length catalog. normalize h (region (catalog ! j)) \<noteq> normalize h input) \<and>
          (\<forall>j \<le> i. get_property table (normalize h (region (catalog ! j))) \<noteq> Inherited) \<and>
          satisfies_strategy table h input (region (catalog ! i)) \<and>
          (\<forall>j < i. \<not> satisfies_strategy table h input (region (catalog ! j))) \<longrightarrow>
          findByRegionFlexible_on catalog table h input = Inr (Some (catalog ! i))) \<and>
         findByRegionFlexible h input =
           Inr (find (\<lambda>sc. satisfies_strategy REGION_ALIASES h input (region sc)) serviceCenters)"
proof (intro conjI impI)
  assume "normalize h (region (catalog ! i)) = normalize h input \<and>
      (\<forall>j < i. normalize h (region (catalog ! j)) \<noteq> normalize h input)"
  then have "find (\<lambda>sc. normalize h (region sc) = normalize h input) catalog = Some (catalog ! i)"
    using assms by (intro find_index) simp_all
  then show "findByRegionFlexible_on catalog table h input = Inr (Some (catalog ! i))"
    by (simp add: findByRegionFlexible_on_def)
next
  assume a: "(\<forall>j < length catalog. normalize h (region (catalog ! j)) \<noteq> normalize h input) \<and>
      (\<forall>j \<le> i. get_property table (normalize h (region (catalog ! j))) \<noteq> Inherited) \<and>
      satisfies_strategy table h input (region (catalog ! i)) \<and>
      (\<forall>j < i. \<not> satisfies_strategy table h input (region (catalog ! j)))"
  then have "find (\<lambda>sc. normalize h (region sc) = normalize h input) catalog = None"
    by (intro find_none) simp
  moreover have "find_first (\<lambda>sc. isAliasMatch_on table h input (region sc)) catalog =
      Inr (Some (catalog ! i))"
    using a assms by (intro find_first_strategies) simp_all
  ultimately show "findByRegionFlexible_on catalog table h input = Inr (Some (catalog ! i))"
    by (simp add: findByRegionFlexible_on_def)
next
  show "findByRegionFlexible h input =
      Inr (find (\<lambda>sc. satisfies_strategy REGION_ALIASES h input (region sc)) serviceCenters)"
    by (simp add: findByRegionFlexible_samtek serviceCenters_def)
qed

theorem resolve_priority_order_witness:
  "findByRegionFlexible_on two_centers REGION_ALIASES plain_host (region samtek)
     = Inr (Some (two_centers ! 1)) \<and>
   two_centers ! 1 = samtek \<and>
   findByRegionFlexible plain_host (js ''santiago'') = Inr (Some samtek)"
proof -
  have r: "normalize plain_host (js ''Region Metropolitana de Santiagos'') =
      js ''region metropolitana de santiagos''"
    and s: "normalize plain_host (js ''santiago'') = js ''santiago''"
    by (simp_all add: string_eval)
  have d: "js ''region metropolitana de santiagos'' \<noteq> js ''region metropolitana de santiago''"
    "js ''region metropolitana de santiago'' \<noteq> js ''santiago''"
    "length (js ''santiago'') = 8"
    by (simp_all add: js_def)
  have i: "str_includes (js ''region metropolitana de santiago'') (js ''santiago'')"
    by (simp add: str_includes_def js_def upt_rec)
  have q: "satisfies_strategy REGION_ALIASES plain_host (js ''santiago'') (region samtek)"
    by (simp add: strategy_samtek s i d)
  have 1: "findByRegionFlexible_on two_centers REGION_ALIASES plain_host (region samtek)
      = Inr (Some (two_centers ! 1))"
    using resolve_priority_order [of 1 two_centers plain_host "region samtek" REGION_ALIASES]
    by (simp add: two_centers_def samtek_key r d)
  have 2: "findByRegionFlexible_on serviceCenters REGION_ALIASES plain_host (js ''santiago'')
      = Inr (Some (serviceCenters ! 0))"
    using resolve_priority_order [of 0 serviceCenters plain_host "js ''santiago''" REGION_ALIASES]
    by (simp add: serviceCenters_def samtek_key samtek_aliases s d q)
  show ?thesis
    using 1 2 by (simp add: findByRegionFlexible_def two_centers_def serviceCenters_def)
qed

text \<open>
  C5. Containment counts only from six characters on. For an input whose canonical form is
  shorter, the entry matches exactly when one of the other strategies holds; for one of
  six characters or more that contains the entry's key, or is contained in it, the entry
  matches. The key is assumed not to be the name of an inherited property, as holds for
  the catalog (\<open>samtek_key_plain\<close>).
\<close>

theorem substring_gate:
  assumes "get_property table (normalize h regionName) \<noteq> Inherited"
  shows "(length (normalize h input) < 6 \<longrightarrow>
          isAliasMatch_on table h input regionName =
            Inr (normalize h input = normalize h regionName \<or>
                 list_ex (\<lambda>a. normalize h a = normalize h input)
                   (aliases_for table (normalize h regionName)) \<or>
                 levenshtein h (normalize h input) (normalize h regionName) \<le> 2 \<or>
                 list_ex (\<lambda>a. levenshtein h (normalize h input) a \<le> 2)
                   (aliases_for table (normalize h regionName)))) \<and>
         (6 \<le> length (normalize h input) \<and>
          (str_includes (normalize h input) (normalize h regionName) \<or>
           str_includes (normalize h regionName) (normalize h input)) \<longrightarrow>
          isAliasMatch_on table h input regionName = Inr True)"
  using isAliasMatch_on_strategies [OF assms, of input]
  by (auto simp: satisfies_strategy_def Let_def)

theorem substring_gate_witness:
  "str_includes (js ''region metropolitana de santiago'') (js ''metro'') \<and>
   isAliasMatch plain_host (js ''metro'') (region samtek) = Inr False \<and>
   str_includes (js ''region metropolitana de santiago'') (js ''santiago'') \<and>
   isAliasMatch plain_host (js ''santiago'') (region samtek) = Inr True"
proof -
  have m: "normalize plain_host (js ''metro'') = js ''metro''"
    and s: "normalize plain_host (js ''santiago'') = js ''santiago''"
    by (simp_all add: string_eval)
  have i: "str_includes (js ''region metropolitana de santiago'') (js ''metro'')"
    "str_includes (js ''region metropolitana de santiago'') (js ''santiago'')"
    by (simp_all add: str_includes_def js_def upt_rec)
  have l: "length (js ''metro'') = 5" "length (js ''santiago'') = 8"
    "js ''metro'' \<noteq> js ''region metropolitana de santiago''"
    by (simp_all add: js_def)
  have a: "aliases_for REGION_ALIASES (js ''region metropolitana de santiago'') = []"
    by (simp add: aliases_for_def samtek_aliases)
  have f: "\<not> levenshtein plain_host (js ''metro'') (js ''region metropolitana de santiago'') \<le> 2"
    using far_from_key [of plain_host "js ''metro''"] by (simp add: m l)
  show ?thesis
    using substring_gate [OF samtek_key_plain, of plain_host "js ''metro''"]
      substring_gate [OF samtek_key_plain, of plain_host "js ''santiago''"]
    by (simp add: isAliasMatch_def samtek_key m s i l a f)
qed

end
